theory Spec2Isabelle
  imports Main
begin

section \<open>Pins, time and observable operations\<close>

text \<open>
  The program (\<^verbatim>\<open>main.go\<close>) drives two GPIO output pins and reads two GPIO input
  pins. A pin level is \<^verbatim>\<open>rpio.Low\<close> or \<^verbatim>\<open>rpio.High\<close>; the four pins are the
  package-level variables of the same names.
\<close>

datatype level = Low | High

datatype pin = OpenPin | ClosePin | StatusPin0 | StatusPin1

text \<open>
  Points in time and durations are nanosecond counts (\<^verbatim>\<open>time.Duration\<close> is a
  signed 64-bit nanosecond count; \<^verbatim>\<open>time.Second\<close> is \<open>10^9\<close>).
\<close>

type_synonym time = int
type_synonym duration = int

definition Second :: duration where
  "Second = 1000000000"

text \<open>
  What a piece of the program does to the outside world is recorded as a list of
  operations in program order: writes to an output pin, \<^verbatim>\<open>time.Sleep\<close>, a line
  given to the logger, the body written to an HTTP response, a value received from the
  token channel, the pin-mode calls of start-up and the return of
  \<^verbatim>\<open>http.ListenAndServe\<close>. \<open>LogRequest\<close> stands for \<^verbatim>\<open>log.Println(r)\<close>, which
  prints the request structure; only its method and its action parameter are kept.
\<close>

datatype op =
    SetHigh pin
  | SetLow pin
  | Sleep duration
  | Log string
  | LogRequest string string
  | Write string
  | Recv string
  | Output pin
  | Input pin
  | ListenAndServeReturned string

text \<open>
  The package-level variables that the program mutates: \<^verbatim>\<open>sphincterStatus\<close> (an
  \<^verbatim>\<open>int\<close> behind the type \<^verbatim>\<open>SphincterStatus\<close>) and \<^verbatim>\<open>latestTimestamp\<close>. The field
  \<open>sensorReads\<close> counts the \<^verbatim>\<open>Read()\<close> calls made so far on the status pins; it is
  the position in the history of sensor samples (see \<open>sensor\<close> below).
\<close>

record globals =
  sphincterStatus :: int
  latestTimestamp :: time
  sensorReads :: nat

text \<open>
  The sensor lines are an input of the program: \<open>sn k p\<close> is the level that the
  \<open>k\<close>-th \<^verbatim>\<open>Read()\<close> call of the execution sees when it reads pin \<open>p\<close>.
\<close>

type_synonym sensor = "nat \<Rightarrow> pin \<Rightarrow> level"

section \<open>The HTTP handler of \<^verbatim>\<open>/sphincter\<close>\<close>

text \<open>
  The closure registered with \<^verbatim>\<open>http.HandleFunc\<close>. Its inputs are the request
  method and the value of the query parameter \<^verbatim>\<open>action\<close>; it may touch the pins and
  the package-level variables, so it is given the sensor history and the variables and
  returns the operations it performs together with the variables afterwards.
\<close>

definition httpHandler :: "sensor \<Rightarrow> globals \<Rightarrow> string \<Rightarrow> string \<Rightarrow> op list \<times> globals" where
  "httpHandler sn g method action =
     (if method \<noteq> ''GET'' then
        ([LogRequest method action, Log ''Ignoring non-GET request.''], g)
      else if action = ''state'' then
        ([LogRequest method action, Write ''UNLOCKED''], g)
      else if action = ''unlock'' then
        ([LogRequest method action,
          SetHigh OpenPin, Sleep (1 * Second), SetLow OpenPin,
          Write ''UNLOCKED''], g)
      else if action = ''lock'' then
        ([LogRequest method action, Write ''LOCKED''], g)
      else
        ([LogRequest method action,
          Write ''action parameter must be one of status, lock or unlock''], g))"

section \<open>The token check and the reader loop\<close>

text \<open>
  \<^verbatim>\<open>strings.ReplaceAll(token, old, "")\<close> for a one-character \<^verbatim>\<open>old\<close> deletes every
  occurrence of that character.
\<close>

definition ReplaceAll :: "string \<Rightarrow> char \<Rightarrow> string" where
  "ReplaceAll s old = filter (\<lambda>c. c \<noteq> old) s"

definition isValid :: "string \<Rightarrow> bool" where
  "isValid token =
     (let token = ReplaceAll token (CHR ''F'');
          token = ReplaceAll token (CHR ''0'')
      in length token > 0)"

text \<open>
  \<^verbatim>\<open>time.Since(t)\<close> is \<^verbatim>\<open>time.Now().Sub(t)\<close>; \<^verbatim>\<open>Sub\<close> saturates at the largest and
  smallest \<^verbatim>\<open>Duration\<close>. The first argument is the reading of the clock.
\<close>

definition maxDuration :: duration where
  "maxDuration = 9223372036854775807"

definition minDuration :: duration where
  "minDuration = - 9223372036854775808"

definition Since :: "time \<Rightarrow> time \<Rightarrow> duration" where
  "Since now t =
     (let d = now - t
      in if d > maxDuration then maxDuration
         else if d < minDuration then minDuration
         else d)"

text \<open>
  One iteration of the loop \<^verbatim>\<open>for msg := range getRFIDToken(&port)\<close> of \<^verbatim>\<open>main\<close>,
  after \<^verbatim>\<open>msg\<close> has been received. The table \<open>users\<close> is the map built by
  \<^verbatim>\<open>parseUserList\<close>. The iteration reads the clock at most twice: \<open>fst clk\<close> is the
  reading inside \<^verbatim>\<open>time.Since\<close>, \<open>snd clk\<close> is the reading of \<^verbatim>\<open>time.Now()\<close> stored
  in \<^verbatim>\<open>latestTimestamp\<close>.
\<close>

definition readerStep ::
  "(string \<rightharpoonup> string) \<Rightarrow> time \<times> time \<Rightarrow> globals \<Rightarrow> string \<Rightarrow> op list \<times> globals" where
  "readerStep users clk g msg =
     (if Since (fst clk) (latestTimestamp g) < 5 * Second then
        ([Log ''Triggered too fast; skipped unlock''], g)
      else
        (case users msg of
           Some username \<Rightarrow>
             ([Log (''Hello '' @ msg @ '' '' @ username),
               SetHigh OpenPin, Sleep (1 * Second), SetLow OpenPin],
              g\<lparr>latestTimestamp := snd clk\<rparr>)
         | None \<Rightarrow>
             (if isValid msg then ([Log (''Could not find key '' @ msg)], g)
              else ([], g))))"

text \<open>
  The loop over the tokens that arrive on the channel; \<open>ticks i\<close> gives the two clock
  readings of iteration \<open>i\<close>.
\<close>

fun readerLoop ::
  "(string \<rightharpoonup> string) \<Rightarrow> (nat \<Rightarrow> time \<times> time) \<Rightarrow> nat \<Rightarrow> globals \<Rightarrow> string list
     \<Rightarrow> op list \<times> globals" where
  "readerLoop users ticks i g [] = ([], g)"
| "readerLoop users ticks i g (msg # msgs) =
     (let (ops, g') = readerStep users (ticks i) g msg;
          (rest, g'') = readerLoop users ticks (Suc i) g' msgs
      in (Recv msg # ops @ rest, g''))"

section \<open>The token framer\<close>

text \<open>
  The serial port is an \<^verbatim>\<open>io.Reader\<close>. Its behaviour is an input of the program: the
  list of the results of the successive \<^verbatim>\<open>Read\<close> calls made on it. A call returns a
  number of bytes and an error: \<open>Data bs\<close> is a call that delivered the bytes \<open>bs\<close>
  with no error, \<open>Fail err\<close> a call that delivered no byte and the error \<open>err\<close>, and
  \<open>DataFail bs err\<close> a call that delivered the bytes \<open>bs\<close> together with the error
  \<open>err\<close>. Which bytes of the stream arrive together in one call is decided by the
  driver, not by the program. When the list is exhausted the next \<^verbatim>\<open>Read\<close> has not
  returned yet (the goroutine is blocked waiting for bytes).
\<close>

datatype io_error = EOF | ErrNoProgress | PortError string

datatype read_result = Data string | Fail io_error | DataFail string io_error

definition STX :: char where
  "STX = CHR 0x02"

definition ETX :: char where
  "ETX = CHR 0x03"

text \<open>
  \<^verbatim>\<open>bufio.Reader.ReadBytes(delim)\<close> on a reader whose buffer holds the unread bytes
  \<open>buf\<close> and whose pending error, from an earlier \<^verbatim>\<open>Read\<close>, is \<open>pending\<close>. The buffer
  is searched first: if it holds the delimiter, the bytes up to and including its first
  occurrence are returned with no error, and the bytes behind it and the pending error
  stay in this reader. Otherwise a pending error ends the call with that error.
  Otherwise the buffer is filled by one more \<^verbatim>\<open>Read\<close> of the underlying port and
  searched again: bytes that come with an error are put into the buffer and the error
  becomes pending; an error that comes with no byte ends the call, since the buffer
  holds no delimiter; a call that delivers neither byte nor error is repeated, and the
  hundredth such call in a row ends with \<^verbatim>\<open>io.ErrNoProgress\<close>
  (\<^verbatim>\<open>maxConsecutiveEmptyReads\<close>); \<open>empties\<close> counts them. The result
  \<open>Line res buf' pending' rs'\<close> carries the returned bytes, the buffer and the pending
  error left in the reader, and the reads not yet made.
\<close>

datatype readbytes_result =
    Line string string "io_error option" "read_result list"
  | Failed io_error
  | Blocked

fun ReadBytes ::
  "char \<Rightarrow> string \<Rightarrow> io_error option \<Rightarrow> nat \<Rightarrow> read_result list \<Rightarrow> readbytes_result" where
  "ReadBytes delim buf pending empties rs =
     (if delim \<in> set buf then
        Line (takeWhile (\<lambda>c. c \<noteq> delim) buf @ [delim])
             (tl (dropWhile (\<lambda>c. c \<noteq> delim) buf)) pending rs
      else
        (case pending of
           Some err \<Rightarrow> Failed err
         | None \<Rightarrow>
        (case rs of
           [] \<Rightarrow> Blocked
         | Fail err # rs' \<Rightarrow> Failed err
         | DataFail bs err # rs' \<Rightarrow> ReadBytes delim (buf @ bs) (Some err) 0 rs'
         | Data bs # rs' \<Rightarrow>
             (if bs = [] then
                (if 100 \<le> Suc empties then Failed ErrNoProgress
                 else ReadBytes delim buf None (Suc empties) rs')
              else ReadBytes delim (buf @ bs) None 0 rs'))))"

declare ReadBytes.simps [simp del]

text \<open>
  \<^verbatim>\<open>strings.Replace(s, old, "", -1)\<close> for a one-character \<^verbatim>\<open>old\<close>: every occurrence is
  deleted.
\<close>

definition Replace :: "string \<Rightarrow> char \<Rightarrow> string" where
  "Replace s old = filter (\<lambda>c. c \<noteq> old) s"

text \<open>
  How the goroutine of \<^verbatim>\<open>getRFIDToken\<close> stands after the reads given: blocked in a
  \<^verbatim>\<open>Read\<close>, or ended by \<^verbatim>\<open>panic(err)\<close>, which ends the whole process.
\<close>

datatype framer_end = Waiting | Panicked io_error

lemma ReadBytes_length:
  "ReadBytes delim buf pending empties rs = Line res buf' pending' rs' \<Longrightarrow>
   length rs' \<le> length rs \<and> (delim \<notin> set buf \<longrightarrow> length rs' < length rs)"
proof (induction delim buf pending empties rs rule: ReadBytes.induct)
  case (1 delim buf pending empties rs)
  from "1.prems" show ?case
    using "1.IH"
    by (subst (asm) ReadBytes.simps)
      (fastforce split: if_splits option.splits list.splits read_result.splits)
qed

text \<open>
  The goroutine started by \<^verbatim>\<open>getRFIDToken\<close>: the tokens it sends on the channel, in
  order, and how it stands after the reads given. Every iteration of its loop makes a
  new \<^verbatim>\<open>bufio.NewReader(*port)\<close>, whose buffer is empty and which has no pending error;
  the buffer \<open>buf'\<close> and the pending error \<open>pending'\<close> left in the reader of the
  iteration before are not used again.
\<close>

function getRFIDToken :: "read_result list \<Rightarrow> string list \<times> framer_end" where
  "getRFIDToken rs =
     (case ReadBytes ETX [] None 0 rs of
        Blocked \<Rightarrow> ([], Waiting)
      | Failed err \<Rightarrow> ([], Panicked err)
      | Line res buf' pending' rs' \<Rightarrow>
          (let s = Replace res ETX;
               s = Replace s STX;
               (toks, end) = getRFIDToken rs'
           in (s # toks, end)))"
  by pat_completeness auto
termination
proof (relation "measure length")
  show "wf (measure length)" by simp
next
  fix rs :: "read_result list" and res buf' pending' rs' x xa
  assume "ReadBytes ETX [] None 0 rs = Line res buf' pending' rs'"
  from ReadBytes_length [OF this] show "(rs', rs) \<in> measure length"
    by simp
qed

text \<open>
  Both functions are unfolded by hand (or by \<open>code_simp\<close>) where an input is given.
\<close>

declare getRFIDToken.simps [simp del]

section \<open>The door status\<close>

text \<open>The constants of type \<^verbatim>\<open>SphincterStatus\<close>.\<close>

definition UNKNOWN :: int where
  "UNKNOWN = 0"

definition LOCKED :: int where
  "LOCKED = 1"

definition UNLOCKED :: int where
  "UNLOCKED = 2"

definition FAILURE :: int where
  "FAILURE = 3"

text \<open>
  The condition \<^verbatim>\<open>StatusPin0.Read() == a && StatusPin1.Read() == b\<close>. Each \<^verbatim>\<open>Read()\<close>
  takes the next sample of the sensor history; \<^verbatim>\<open>&&\<close> reads the second pin only when
  the first comparison holds.
\<close>

definition readBoth :: "sensor \<Rightarrow> level \<Rightarrow> level \<Rightarrow> globals \<Rightarrow> bool \<times> globals" where
  "readBoth sn a b g =
     (if sn (sensorReads g) StatusPin0 = a then
        (sn (Suc (sensorReads g)) StatusPin1 = b, g\<lparr>sensorReads := sensorReads g + 2\<rparr>)
      else
        (False, g\<lparr>sensorReads := sensorReads g + 1\<rparr>))"

definition updateSphincterStatus :: "sensor \<Rightarrow> globals \<Rightarrow> int \<times> globals" where
  "updateSphincterStatus sn g =
     (let (c, g) = readBoth sn Low Low g;
          g = (if c then g\<lparr>sphincterStatus := UNKNOWN\<rparr> else g);
          (c, g) = readBoth sn High High g;
          g = (if c then g\<lparr>sphincterStatus := FAILURE\<rparr> else g);
          (c, g) = readBoth sn High Low g;
          g = (if c then g\<lparr>sphincterStatus := UNLOCKED\<rparr> else g);
          (c, g) = readBoth sn Low High g;
          g = (if c then g\<lparr>sphincterStatus := LOCKED\<rparr> else g)
      in (sphincterStatus g, g))"

text \<open>
  The door state that the specification assigns to one snapshot of the two sensor lines
  (section 3 of the specification), for comparison with \<open>updateSphincterStatus\<close>.
\<close>

fun spec_DoorState :: "level \<Rightarrow> level \<Rightarrow> int" where
  "spec_DoorState Low Low = UNKNOWN"
| "spec_DoorState High High = FAILURE"
| "spec_DoorState High Low = UNLOCKED"
| "spec_DoorState Low High = LOCKED"

section \<open>The command executor\<close>

text \<open>
  The goroutine of \<^verbatim>\<open>setupSphincterCmdChannel\<close>, given the commands it receives from
  \<^verbatim>\<open>CmdChan\<close> in order. \<^verbatim>\<open>log.Println("cmd: %s", cmd)\<close> prints its two arguments
  separated by a space.
\<close>

definition executorStep :: "string \<Rightarrow> op list" where
  "executorStep cmd =
     Log (''cmd: %s '' @ cmd) #
     (if cmd = ''open'' then [SetHigh OpenPin, Sleep (1 * Second), SetLow OpenPin]
      else if cmd = ''close'' then [SetHigh ClosePin, Sleep (1 * Second), SetLow ClosePin]
      else [Log ''unknown cmd received on CmdChan''])"

definition setupSphincterCmdChannel :: "string list \<Rightarrow> op list" where
  "setupSphincterCmdChannel cmds = concat (map executorStep cmds)"

section \<open>The program\<close>

text \<open>
  Who performs an operation: \<^verbatim>\<open>main\<close> before its reader loop, the handler goroutine
  that \<^verbatim>\<open>net/http\<close> starts for the \<open>i\<close>-th request, the goroutine of
  \<^verbatim>\<open>setupSphincterCmdChannel\<close>, or the reader loop at the end of \<^verbatim>\<open>main\<close>.
\<close>

datatype actor = Main | Handler nat | Executor | Reader

text \<open>
  Goroutines that run at the same time are interleaved by a schedule: a list of thread
  numbers, each entry letting that thread perform its next operation (an entry naming a
  thread that has finished, or no thread, does nothing). \<open>interleave\<close> gives the
  operations performed under the schedule, in order; \<open>remaining\<close> gives what every
  thread has still to do when the schedule ends.
\<close>

fun interleave :: "nat list \<Rightarrow> 'a list list \<Rightarrow> 'a list" where
  "interleave [] threads = []"
| "interleave (i # sched) threads =
     (if i < length threads then
        (case threads ! i of
           [] \<Rightarrow> interleave sched threads
         | x # rest \<Rightarrow> x # interleave sched (threads[i := rest]))
      else interleave sched threads)"

fun remaining :: "nat list \<Rightarrow> 'a list list \<Rightarrow> 'a list list" where
  "remaining [] threads = threads"
| "remaining (i # sched) threads =
     (if i < length threads then
        (case threads ! i of
           [] \<Rightarrow> remaining sched threads
         | x # rest \<Rightarrow> remaining sched (threads[i := rest]))
      else remaining sched threads)"

text \<open>
  \<^verbatim>\<open>http.ListenAndServe\<close> while it serves: every request is handled by the handler in
  a goroutine of its own, \<open>Handler i\<close> for the \<open>i\<close>-th request. The handler leaves the
  package-level variables as they are, so every request sees the same ones.
\<close>

definition handlers ::
  "sensor \<Rightarrow> globals \<Rightarrow> (string \<times> string) list \<Rightarrow> (actor \<times> op) list list" where
  "handlers sn g reqs =
     map (\<lambda>(i, (method, action)). map (Pair (Handler i)) (fst (httpHandler sn g method action)))
         (enumerate 0 reqs)"

definition serve ::
  "sensor \<Rightarrow> globals \<Rightarrow> (string \<times> string) list \<Rightarrow> nat list \<Rightarrow> (actor \<times> op) list" where
  "serve sn g reqs sched = interleave sched (handlers sn g reqs)"

text \<open>
  The inputs of one execution of \<^verbatim>\<open>main\<close>: the error, if any, of \<^verbatim>\<open>rpio.Open\<close>; the
  result of \<^verbatim>\<open>parseUserList\<close> (an error or the table); the error, if any, of
  \<^verbatim>\<open>serial.Open\<close>; the requests that arrive while the server serves and the schedule
  of their handlers up to the return of \<^verbatim>\<open>http.ListenAndServe\<close>; the error returned
  by \<^verbatim>\<open>http.ListenAndServe\<close>, which returns only with an error (\<open>None\<close>: it has not
  returned, the server is serving); the schedule after that return, of the reader loop
  (thread \<open>0\<close>) and of the handlers still at work (thread \<open>i + 1\<close> for request \<open>i\<close>);
  the reads of the serial port; the clock readings of the reader loop; the sensor
  history.
\<close>

record env =
  rpioOpen :: "string option"
  userList :: "string + (string \<rightharpoonup> string)"
  serialOpen :: "string option"
  requests :: "(string \<times> string) list"
  schedule :: "nat list"
  listenAndServe :: "string option"
  scheduleAfter :: "nat list"
  portReads :: "read_result list"
  clock :: "nat \<Rightarrow> time \<times> time"
  sensors :: sensor

text \<open>
  The zero value of \<^verbatim>\<open>time.Time\<close> (1 January of year 1, UTC) in nanoseconds
  relative to the Unix epoch, and the package-level variables when \<^verbatim>\<open>main\<close> starts.
\<close>

definition zeroTime :: time where
  "zeroTime = - 62135596800 * Second"

definition initial :: globals where
  "initial = \<lparr>sphincterStatus = 0, latestTimestamp = zeroTime, sensorReads = 0\<rparr>"

datatype main_end = Fatal string | Serving | Reading framer_end

text \<open>
  \<^verbatim>\<open>main\<close>: the operations of an execution in order, each with its actor, and how
  the execution stands at the end. \<^verbatim>\<open>log.Fatal\<close> logs and exits. The number in
  \<^verbatim>\<open>Found %d users\<close> is not rendered. \<^verbatim>\<open>setupSphincterCmdChannel\<close> is not called by
  \<^verbatim>\<open>main\<close>, and nothing sends on \<^verbatim>\<open>CmdChan\<close>. The reader loop starts when
  \<^verbatim>\<open>http.ListenAndServe\<close> has returned; handlers that have not finished by then go on
  beside it. The list holds what has happened when both schedules have ended; a panic
  of the framer goroutine ends the process wherever the other goroutines stand, so
  with \<open>Reading (Panicked err)\<close> the operations after the last \<open>Recv\<close> may not all have
  happened.
\<close>

definition main :: "env \<Rightarrow> (actor \<times> op) list \<times> main_end" where
  "main e =
     (let start = [(Main, Log '' :: Starting sphincter rfid token...''),
                   (Main, Log '' :::: Opening GPIO'')]
      in case rpioOpen e of
           Some err \<Rightarrow> (start @ [(Main, Log err)], Fatal err)
         | None \<Rightarrow>
      (let modes = [(Main, Output OpenPin), (Main, Output ClosePin),
                    (Main, Input StatusPin0), (Main, Input StatusPin1),
                    (Main, Log '' :::: Reading list.txt'')]
       in case userList e of
            Inl err \<Rightarrow> (start @ modes @ [(Main, Log err)], Fatal err)
          | Inr users \<Rightarrow>
      (let conn = [(Main, Log '' :::: Found %d users ''),
                   (Main, Log '' :::: Connecting to Serial'')]
       in case serialOpen e of
            Some err \<Rightarrow> (start @ modes @ conn @ [(Main, Log err)], Fatal err)
          | None \<Rightarrow>
      (let web = (Main, Log '' :::: Setting up webserver'') #
                 serve (sensors e) initial (requests e) (schedule e)
       in case listenAndServe e of
            None \<Rightarrow> (start @ modes @ conn @ web, Serving)
          | Some err \<Rightarrow>
      (let (toks, end) = getRFIDToken (portReads e);
           (ops, g) = readerLoop users (clock e) 0 initial toks;
           late = remaining (schedule e) (handlers (sensors e) initial (requests e))
       in (start @ modes @ conn @ web @
           [(Main, ListenAndServeReturned err), (Main, Log '' :: Initialized!'')] @
           interleave (scheduleAfter e) (map (Pair Reader) ops # late),
           Reading end))))))"

section \<open>Pin levels along an execution\<close>

text \<open>
  The level that each output pin is driven to, and the levels before and after every
  operation of a list.
\<close>

fun drive :: "(pin \<Rightarrow> level) \<Rightarrow> op \<Rightarrow> (pin \<Rightarrow> level)" where
  "drive lv (SetHigh p) = lv(p := High)"
| "drive lv (SetLow p) = lv(p := Low)"
| "drive lv x = lv"

fun levels :: "(pin \<Rightarrow> level) \<Rightarrow> op list \<Rightarrow> (pin \<Rightarrow> level) list" where
  "levels lv [] = [lv]"
| "levels lv (x # xs) = lv # levels (drive lv x) xs"

text \<open>
  Pulses do not overlap in a list of operations when every \<open>SetHigh\<close> happens while no
  pulse is in progress and the next pin write after it is the \<open>SetLow\<close> of the same
  actor. The first argument is the actor whose pulse is in progress, if any.
\<close>

fun nonOverlapping :: "actor option \<Rightarrow> (actor \<times> op) list \<Rightarrow> bool" where
  "nonOverlapping cur [] = True"
| "nonOverlapping cur ((a, SetHigh p) # tr) = (cur = None \<and> nonOverlapping (Some a) tr)"
| "nonOverlapping cur ((a, SetLow p) # tr) = (cur = Some a \<and> nonOverlapping None tr)"
| "nonOverlapping cur (x # tr) = nonOverlapping cur tr"

text \<open>The pin writes among a list of operations.\<close>

fun isPinWrite :: "op \<Rightarrow> bool" where
  "isPinWrite (SetHigh p) = True"
| "isPinWrite (SetLow p) = True"
| "isPinWrite x = False"

definition pinWrites :: "op list \<Rightarrow> op list" where
  "pinWrites xs = filter isPinWrite xs"

text \<open>The pin writes of an execution, each with its actor.\<close>

definition pinWritesBy :: "(actor \<times> op) list \<Rightarrow> (actor \<times> op) list" where
  "pinWritesBy tr = filter (\<lambda>t. isPinWrite (snd t)) tr"

section \<open>Example inputs\<close>

text \<open>
  Inputs used where a statement is evaluated: an environment in which start-up succeeds
  and the table holds the single entry \<^verbatim>\<open>A1B2 Alice\<close>; two unlock requests whose
  handlers run at the same time; all pins Low; a table that lists the token
  \<^verbatim>\<open>0000\<close>; sensor lines
  that show a locked door; and sensor lines on which the second line is High for exactly
  one sample.
\<close>

definition exampleEnv ::
  "(string \<times> string) list \<Rightarrow> nat list \<Rightarrow> string option \<Rightarrow> read_result list \<Rightarrow> env" where
  "exampleEnv reqs sched ret reads =
     \<lparr>rpioOpen = None, userList = Inr [''A1B2'' \<mapsto> ''Alice''], serialOpen = None,
      requests = reqs, schedule = sched, listenAndServe = ret,
      scheduleAfter = [0, 0, 0, 0, 0, 0, 0, 0], portReads = reads,
      clock = (\<lambda>i. (10 * Second, 10 * Second)), sensors = (\<lambda>k p. Low)\<rparr>"

definition twoUnlocks :: env where
  "twoUnlocks =
     exampleEnv [(''GET'', ''unlock''), (''GET'', ''unlock'')] [0, 0, 1, 1, 0, 0, 0, 1, 1, 1]
       None []"


definition listedNoise :: "string \<rightharpoonup> string" where
  "listedNoise = [''0000'' \<mapsto> ''Bob'']"

definition doorLocked :: sensor where
  "doorLocked k p = (if p = StatusPin1 then High else Low)"

definition tornSample :: sensor where
  "tornSample k p = (if p = StatusPin1 \<and> k = 1 then High else Low)"

section \<open>Supporting lemmas\<close>

subsection \<open>Handlers, reader loop and \<^verbatim>\<open>main\<close>\<close>

lemma interleave_mem:
  "y \<in> set (interleave sched threads) \<Longrightarrow> \<exists>t \<in> set threads. y \<in> set t"
proof (induction sched arbitrary: threads)
  case Nil
  then show ?case by simp
next
  case (Cons i sched)
  show ?case
  proof (cases "i < length threads")
    case False
    with Cons.prems have "y \<in> set (interleave sched threads)" by simp
    then show ?thesis by (rule Cons.IH)
  next
    case True
    then have mem: "threads ! i \<in> set threads" by simp
    show ?thesis
    proof (cases "threads ! i")
      case Nil
      with True Cons.prems have "y \<in> set (interleave sched threads)" by simp
      then show ?thesis by (rule Cons.IH)
    next
      case (Cons x rest)
      with True Cons.prems
      have "y = x \<or> y \<in> set (interleave sched (threads[i := rest]))" by simp
      then show ?thesis
      proof
        assume "y = x"
        with Cons have "y \<in> set (threads ! i)" by simp
        with mem show ?thesis by (rule rev_bexI)
      next
        assume "y \<in> set (interleave sched (threads[i := rest]))"
        then obtain t where t: "t \<in> set (threads[i := rest])" and y: "y \<in> set t"
          using Cons.IH by blast
        from t set_update_subset_insert [of threads i rest]
        have "t = rest \<or> t \<in> set threads" by blast
        then show ?thesis
        proof
          assume "t = rest"
          with y Cons have "y \<in> set (threads ! i)" by simp
          with mem show ?thesis by (rule rev_bexI)
        next
          assume "t \<in> set threads"
          then show ?thesis using y by (rule rev_bexI)
        qed
      qed
    qed
  qed
qed
lemma remaining_mem:
  "t \<in> set (remaining sched threads) \<Longrightarrow> \<exists>u \<in> set threads. set t \<subseteq> set u"
proof (induction sched arbitrary: threads)
  case Nil
  then show ?case by auto
next
  case (Cons i sched)
  show ?case
  proof (cases "i < length threads")
    case False
    with Cons.prems have "t \<in> set (remaining sched threads)" by simp
    then show ?thesis by (rule Cons.IH)
  next
    case True
    then have mem: "threads ! i \<in> set threads" by simp
    show ?thesis
    proof (cases "threads ! i")
      case Nil
      with True Cons.prems have "t \<in> set (remaining sched threads)" by simp
      then show ?thesis by (rule Cons.IH)
    next
      case (Cons x rest)
      with True Cons.prems have "t \<in> set (remaining sched (threads[i := rest]))" by simp
      then obtain u where u: "u \<in> set (threads[i := rest])" and t: "set t \<subseteq> set u"
        using Cons.IH by blast
      from u set_update_subset_insert [of threads i rest]
      have "u = rest \<or> u \<in> set threads" by blast
      then show ?thesis
      proof
        assume "u = rest"
        with t Cons have "set t \<subseteq> set (threads ! i)" by auto
        with mem show ?thesis by (rule rev_bexI)
      next
        assume "u \<in> set threads"
        then show ?thesis using t by (rule rev_bexI)
      qed
    qed
  qed
qed

lemma handlers_ops:
  assumes "t \<in> set (handlers sn g reqs)" and "(a, x) \<in> set t"
  shows "\<exists>i m act. a = Handler i \<and> x \<in> set (fst (httpHandler sn g m act))"
proof -
  from assms(1) obtain i m act
    where "t = map (Pair (Handler i)) (fst (httpHandler sn g m act))"
    unfolding handlers_def by (auto simp del: enumerate_eq_zip)
  with assms(2) have "a = Handler i \<and> x \<in> set (fst (httpHandler sn g m act))"
    by auto
  then show ?thesis by blast
qed

lemma serve_ops:
  assumes "(a, x) \<in> set (serve sn g reqs sched)"
  shows "\<exists>i m act. a = Handler i \<and> x \<in> set (fst (httpHandler sn g m act))"
proof -
  from interleave_mem [OF assms [unfolded serve_def]] obtain t
    where "t \<in> set (handlers sn g reqs)" and "(a, x) \<in> set t"
    by blast
  then show ?thesis by (rule handlers_ops)
qed

lemma late_ops:
  assumes "t \<in> set (remaining sched (handlers sn g reqs))" and "(a, x) \<in> set t"
  shows "\<exists>i m act. a = Handler i \<and> x \<in> set (fst (httpHandler sn g m act))"
proof -
  from remaining_mem [OF assms(1)] obtain u
    where "u \<in> set (handlers sn g reqs)" and "set t \<subseteq> set u"
    by blast
  with assms(2) have "u \<in> set (handlers sn g reqs)" and "(a, x) \<in> set u"
    by auto
  then show ?thesis by (rule handlers_ops)
qed

lemma handler_globals: "snd (httpHandler sn g method action) = g"
  by (simp add: httpHandler_def)

lemma handler_pin_writes:
  "x \<in> set (fst (httpHandler sn g method action)) \<Longrightarrow> isPinWrite x \<Longrightarrow>
   x = SetHigh OpenPin \<or> x = SetLow OpenPin"
  by (auto simp: httpHandler_def split: if_splits)


lemma readerStep_pin_writes:
  "x \<in> set (fst (readerStep users clk g msg)) \<Longrightarrow> isPinWrite x \<Longrightarrow>
   x = SetHigh OpenPin \<or> x = SetLow OpenPin"
  by (auto simp: readerStep_def split: if_splits option.splits)

lemma readerLoop_pin_writes:
  "x \<in> set (fst (readerLoop users ticks i g msgs)) \<Longrightarrow> isPinWrite x \<Longrightarrow>
   x = SetHigh OpenPin \<or> x = SetLow OpenPin"
proof (induction msgs arbitrary: i g)
  case Nil
  then show ?case by simp
next
  case (Cons msg msgs)
  obtain ops g' where step: "readerStep users (ticks i) g msg = (ops, g')"
    by (cases "readerStep users (ticks i) g msg")
  obtain rest g'' where loop: "readerLoop users ticks (Suc i) g' msgs = (rest, g'')"
    by (cases "readerLoop users ticks (Suc i) g' msgs")
  from Cons.prems(1) step loop have "x = Recv msg \<or> x \<in> set ops \<or> x \<in> set rest"
    by simp
  then show ?case
  proof (elim disjE)
    assume "x = Recv msg"
    with Cons.prems(2) show ?thesis by simp
  next
    assume "x \<in> set ops"
    with step have "x \<in> set (fst (readerStep users (ticks i) g msg))" by simp
    from readerStep_pin_writes [OF this Cons.prems(2)] show ?thesis .
  next
    assume "x \<in> set rest"
    with loop have "x \<in> set (fst (readerLoop users ticks (Suc i) g' msgs))" by simp
    from Cons.IH [OF this Cons.prems(2)] show ?thesis .
  qed
qed
lemma serve_actor: "y \<in> set (serve sn g reqs sched) \<Longrightarrow> \<exists>i. fst y = Handler i"
  using serve_ops [of "fst y" "snd y" sn g reqs sched] by auto

lemma main_shape:
  "((\<forall>y \<in> set (fst (main e)). fst y \<noteq> Reader) \<and> (\<forall>end. snd (main e) \<noteq> Reading end))
   \<or> (\<exists>P err R.
         listenAndServe e = Some err \<and> (\<forall>y \<in> set P. fst y \<noteq> Reader) \<and>
         fst (main e) =
           P @ (Main, ListenAndServeReturned err) # (Main, Log '' :: Initialized!'') # R)"
proof (cases "rpioOpen e")
  case (Some err)
  then show ?thesis by (simp add: main_def)
next
  case None
  note gpio = this
  show ?thesis
  proof (cases "userList e")
    case (Inl err)
    with gpio show ?thesis by (simp add: main_def)
  next
    case (Inr users)
    note list = this
    show ?thesis
    proof (cases "serialOpen e")
      case (Some err)
      with gpio list show ?thesis by (simp add: main_def)
    next
      case None
      note serial = this
      have web: "\<forall>y \<in> set (serve (sensors e) initial (requests e) (schedule e)). fst y \<noteq> Reader"
        using serve_actor by fastforce
      show ?thesis
      proof (cases "listenAndServe e")
        case None
        with gpio list serial web show ?thesis by (simp add: main_def)
      next
        case (Some err)
        define P where "P =
          [(Main, Log '' :: Starting sphincter rfid token...''),
           (Main, Log '' :::: Opening GPIO''), (Main, Output OpenPin), (Main, Output ClosePin),
           (Main, Input StatusPin0), (Main, Input StatusPin1),
           (Main, Log '' :::: Reading list.txt''), (Main, Log '' :::: Found %d users ''),
           (Main, Log '' :::: Connecting to Serial''),
           (Main, Log '' :::: Setting up webserver'')] @
          serve (sensors e) initial (requests e) (schedule e)"
        have noR: "\<forall>y \<in> set P. fst y \<noteq> Reader"
          using web by (auto simp: P_def)
        have "\<exists>R. fst (main e) =
           P @ (Main, ListenAndServeReturned err) # (Main, Log '' :: Initialized!'') # R"
          using gpio list serial Some
          by (simp add: main_def P_def case_prod_beta)
        with noR Some show ?thesis by blast
      qed
    qed
  qed
qed

lemma main_mem:
  assumes "(a, x) \<in> set (fst (main e))"
  shows "(a = Main \<and> \<not> isPinWrite x)
         \<or> (\<exists>i m act. a = Handler i \<and> x \<in> set (fst (httpHandler (sensors e) initial m act)))
         \<or> (a = Reader \<and>
             (\<exists>users. x \<in> set (fst (readerLoop users (clock e) 0 initial
                                        (fst (getRFIDToken (portReads e)))))))"
proof (cases "rpioOpen e")
  case (Some err)
  with assms show ?thesis by (auto simp: main_def)
next
  case None
  note gpio = this
  show ?thesis
  proof (cases "userList e")
    case (Inl err)
    with gpio assms show ?thesis by (auto simp: main_def)
  next
    case (Inr users)
    note list = this
    show ?thesis
    proof (cases "serialOpen e")
      case (Some err)
      with gpio list assms show ?thesis by (auto simp: main_def)
    next
      case None
      note serial = this
      let ?web = "serve (sensors e) initial (requests e) (schedule e)"
      show ?thesis
      proof (cases "listenAndServe e")
        case None
        with gpio list serial assms
        have "(a = Main \<and> \<not> isPinWrite x) \<or> (a, x) \<in> set ?web"
          by (auto simp: main_def)
        then show ?thesis using serve_ops by blast
      next
        case (Some err)
        let ?ops = "fst (readerLoop users (clock e) 0 initial (fst (getRFIDToken (portReads e))))"
        let ?late = "remaining (schedule e) (handlers (sensors e) initial (requests e))"
        from gpio list serial Some assms
        have "(a = Main \<and> \<not> isPinWrite x) \<or> (a, x) \<in> set ?web
              \<or> (a, x) \<in> set (interleave (scheduleAfter e) (map (Pair Reader) ?ops # ?late))"
          by (auto simp: main_def case_prod_beta)
        then consider (m) "a = Main \<and> \<not> isPinWrite x" | (w) "(a, x) \<in> set ?web"
          | (l) "(a, x) \<in> set (interleave (scheduleAfter e) (map (Pair Reader) ?ops # ?late))"
          by blast
        then show ?thesis
        proof cases
          case m
          then show ?thesis by simp
        next
          case w
          then show ?thesis using serve_ops by blast
        next
          case l
          from interleave_mem [OF l] obtain t
            where "t \<in> set (map (Pair Reader) ?ops # ?late)" and mem: "(a, x) \<in> set t"
            by blast
          then have t: "t = map (Pair Reader) ?ops \<or> t \<in> set ?late"
            by simp
          from t show ?thesis
          proof
            assume "t = map (Pair Reader) ?ops"
            with mem have "a = Reader \<and> x \<in> set ?ops" by auto
            then show ?thesis by blast
          next
            assume "t \<in> set ?late"
            from late_ops [OF this mem] show ?thesis by blast
          qed
        qed
      qed
    qed
  qed
qed

lemma levels_ClosePin:
  "\<forall>x \<in> set xs. isPinWrite x \<longrightarrow> x = SetHigh OpenPin \<or> x = SetLow OpenPin \<Longrightarrow>
   l \<in> set (levels lv xs) \<Longrightarrow> l ClosePin = lv ClosePin"
proof (induction xs arbitrary: lv)
  case Nil
  then show ?case by simp
next
  case (Cons x xs)
  from Cons.prems(2) have "l = lv \<or> l \<in> set (levels (drive lv x) xs)" by simp
  then show ?case
  proof
    assume "l = lv"
    then show ?thesis by simp
  next
    assume l: "l \<in> set (levels (drive lv x) xs)"
    from Cons.prems(1) have "\<forall>x \<in> set xs. isPinWrite x \<longrightarrow> x = SetHigh OpenPin \<or> x = SetLow OpenPin"
      by simp
    from Cons.IH [OF this l] have "l ClosePin = drive lv x ClosePin" .
    moreover from Cons.prems(1) have "drive lv x ClosePin = lv ClosePin"
      by (cases x) auto
    ultimately show ?thesis by simp
  qed
qed

lemma main_pin_writes:
  assumes "(a, x) \<in> set (fst (main e))" and "isPinWrite x"
  shows "(x = SetHigh OpenPin \<or> x = SetLow OpenPin) \<and> ((\<exists>i. a = Handler i) \<or> a = Reader)"
proof -
  from main_mem [OF assms(1)] assms(2)
  consider (h) i m act where "a = Handler i"
        "x \<in> set (fst (httpHandler (sensors e) initial m act))"
    | (r) users where "a = Reader"
        "x \<in> set (fst (readerLoop users (clock e) 0 initial (fst (getRFIDToken (portReads e)))))"
    by blast
  then show ?thesis
  proof cases
    case h
    with handler_pin_writes [OF h(2) assms(2)] show ?thesis by blast
  next
    case r
    with readerLoop_pin_writes [OF r(2) assms(2)] show ?thesis by blast
  qed
qed

lemma split_before:
  assumes "xs @ a # ys = P @ R" and "a \<notin> set P"
  shows "\<exists>zs. xs = P @ zs"
proof -
  from assms(1) obtain us
    where "xs = P @ us \<and> us @ a # ys = R \<or> xs @ us = P \<and> a # ys = us @ R"
    by (auto simp: append_eq_append_conv2)
  then show ?thesis
  proof
    assume "xs = P @ us \<and> us @ a # ys = R"
    then show ?thesis by blast
  next
    assume r: "xs @ us = P \<and> a # ys = us @ R"
    show ?thesis
    proof (cases us)
      case Nil
      with r show ?thesis by simp
    next
      case (Cons u us')
      with r have "a \<in> set P" by auto
      with assms(2) show ?thesis by simp
    qed
  qed
qed

lemma ReadBytes_append:
  "ReadBytes d buf pe n rs = Line res b pe' rs' \<Longrightarrow>
   ReadBytes d buf pe n (rs @ xs) = Line res b pe' (rs' @ xs)"
  "ReadBytes d buf pe n rs = Failed err \<Longrightarrow> ReadBytes d buf pe n (rs @ xs) = Failed err"
  "ReadBytes d buf pe n rs = Blocked \<Longrightarrow> ReadBytes d buf pe n (rs @ Fail err # xs) = Failed err"
proof (induction d buf pe n rs rule: ReadBytes.induct)
  case (1 delim buf pending empties rs)
  {
    case 1
    then show ?case
      using "1.IH"(1,4,7)
      by (subst ReadBytes.simps, subst (asm) ReadBytes.simps)
        (auto split: if_splits option.splits list.splits read_result.splits)
  next
    case 2
    then show ?case
      using "1.IH"(2,5,8)
      by (subst ReadBytes.simps, subst (asm) ReadBytes.simps)
        (auto split: if_splits option.splits list.splits read_result.splits)
  next
    case 3
    then show ?case
      using "1.IH"(3,6,9)
      by (subst ReadBytes.simps, subst (asm) ReadBytes.simps)
        (auto split: if_splits option.splits list.splits read_result.splits)
  }
qed

lemma getRFIDToken_then_fail:
  "snd (getRFIDToken pre) = Waiting \<Longrightarrow>
   getRFIDToken (pre @ Fail err # post) = (fst (getRFIDToken pre), Panicked err)"
proof (induction pre rule: getRFIDToken.induct)
  case (1 rs)
  show ?case
  proof (cases "ReadBytes ETX [] None 0 rs")
    case Blocked
    from ReadBytes_append(3) [OF this]
    have "ReadBytes ETX [] None 0 (rs @ Fail err # post) = Failed err" .
    with Blocked show ?thesis
      by (simp add: getRFIDToken.simps [of rs] getRFIDToken.simps [of "rs @ Fail err # post"])
  next
    case (Failed e)
    with "1.prems" show ?thesis
      by (simp add: getRFIDToken.simps [of rs])
  next
    case (Line res buf' pending' rs')
    from ReadBytes_append(1) [OF this]
    have app: "ReadBytes ETX [] None 0 (rs @ Fail err # post) = Line res buf' pending' (rs' @ Fail err # post)" .
    from "1.prems" Line have "snd (getRFIDToken rs') = Waiting"
      by (simp add: getRFIDToken.simps [of rs] case_prod_beta Let_def)
    from "1.IH" [OF Line refl refl this]
    have "getRFIDToken (rs' @ Fail err # post) = (fst (getRFIDToken rs'), Panicked err)" .
    with Line app show ?thesis
      by (simp add: getRFIDToken.simps [of rs] getRFIDToken.simps [of "rs @ Fail err # post"]
          case_prod_beta Let_def)
  qed
qed

lemma getRFIDToken_after_panic:
  "snd (getRFIDToken pre) = Panicked err \<Longrightarrow> getRFIDToken (pre @ post) = getRFIDToken pre"
proof (induction pre rule: getRFIDToken.induct)
  case (1 rs)
  show ?case
  proof (cases "ReadBytes ETX [] None 0 rs")
    case Blocked
    with "1.prems" show ?thesis
      by (simp add: getRFIDToken.simps [of rs])
  next
    case (Failed e)
    from ReadBytes_append(2) [OF this]
    have "ReadBytes ETX [] None 0 (rs @ post) = Failed e" .
    with Failed show ?thesis
      by (simp add: getRFIDToken.simps [of rs] getRFIDToken.simps [of "rs @ post"])
  next
    case (Line res buf' pending' rs')
    from ReadBytes_append(1) [OF this]
    have app: "ReadBytes ETX [] None 0 (rs @ post) = Line res buf' pending' (rs' @ post)" .
    from "1.prems" Line have "snd (getRFIDToken rs') = Panicked err"
      by (simp add: getRFIDToken.simps [of rs] case_prod_beta Let_def)
    from "1.IH" [OF Line refl refl this]
    have "getRFIDToken (rs' @ post) = getRFIDToken rs'" .
    with Line app show ?thesis
      by (simp add: getRFIDToken.simps [of rs] getRFIDToken.simps [of "rs @ post"]
          case_prod_beta Let_def)
  qed
qed

lemma getRFIDToken_no_delimiters:
  "tok \<in> set (fst (getRFIDToken rs)) \<Longrightarrow> STX \<notin> set tok \<and> ETX \<notin> set tok"
proof (induction rs rule: getRFIDToken.induct)
  case (1 rs)
  show ?case
  proof (cases "ReadBytes ETX [] None 0 rs")
    case Blocked
    with "1.prems" show ?thesis by (simp add: getRFIDToken.simps [of rs])
  next
    case (Failed e)
    with "1.prems" show ?thesis by (simp add: getRFIDToken.simps [of rs])
  next
    case (Line res buf' pending' rs')
    with "1.prems"
    have "tok = Replace (Replace res ETX) STX \<or> tok \<in> set (fst (getRFIDToken rs'))"
      by (simp add: getRFIDToken.simps [of rs] case_prod_beta Let_def)
    then show ?thesis
    proof
      assume "tok = Replace (Replace res ETX) STX"
      then show ?thesis by (auto simp: Replace_def)
    next
      assume "tok \<in> set (fst (getRFIDToken rs'))"
      from "1.IH" [OF Line refl refl this] show ?thesis .
    qed
  qed
qed

lemma ReadBytes_whole_frame:
  assumes "ETX \<notin> set p"
  shows "ReadBytes ETX [] None 0 (Data (STX # p @ [ETX]) # rs) =
         Line (STX # p @ [ETX]) [] None rs"
proof -
  have ne: "STX \<noteq> ETX" by (simp add: STX_def ETX_def)
  from assms have all: "\<forall>c \<in> set p. c \<noteq> ETX" by blast
  have tw: "takeWhile (\<lambda>c. c \<noteq> ETX) (STX # p @ [ETX]) = STX # p"
    using all ne by (simp add: takeWhile_append2)
  have dw: "dropWhile (\<lambda>c. c \<noteq> ETX) (STX # p @ [ETX]) = [ETX]"
    using all ne by (simp add: dropWhile_append2)
  have "ReadBytes ETX [] None 0 (Data (STX # p @ [ETX]) # rs) =
        ReadBytes ETX (STX # p @ [ETX]) None 0 rs"
    by (simp add: ReadBytes.simps [of ETX "[]"])
  also have "\<dots> = Line (STX # p @ [ETX]) [] None rs"
    using tw dw by (simp add: ReadBytes.simps [of ETX "STX # p @ [ETX]"])
  finally show ?thesis .
qed

lemma getRFIDToken_frame_per_read:
  "\<forall>p \<in> set ps. STX \<notin> set p \<and> ETX \<notin> set p \<Longrightarrow>
   getRFIDToken (map (\<lambda>p. Data (STX # p @ [ETX])) ps) = (ps, Waiting)"
proof (induction ps)
  case Nil
  show ?case by (simp add: getRFIDToken.simps [of "[]"] ReadBytes.simps [of ETX "[]" None 0 "[]"])
next
  case (Cons p ps)
  then have p: "STX \<notin> set p" "ETX \<notin> set p"
    and IH: "getRFIDToken (map (\<lambda>p. Data (STX # p @ [ETX])) ps) = (ps, Waiting)"
    by simp_all
  have ne: "STX \<noteq> ETX" by (simp add: STX_def ETX_def)
  from p have "\<forall>c \<in> set p. c \<noteq> ETX \<and> c \<noteq> STX" by blast
  then have "Replace (Replace (STX # p @ [ETX]) ETX) STX = p"
    using ne by (simp add: Replace_def filter_id_conv)
  with ReadBytes_whole_frame [OF p(2)] IH show ?case
    by (simp add: getRFIDToken.simps [of "Data (STX # p @ [ETX]) # map (\<lambda>p. Data (STX # p @ [ETX])) ps"])
qed

subsection \<open>Door status, clock and token check\<close>

lemma readBoth_keeps:
  "sphincterStatus (snd (readBoth sn a b g)) = sphincterStatus g"
  "latestTimestamp (snd (readBoth sn a b g)) = latestTimestamp g"
  by (simp_all add: readBoth_def)

lemma updateSphincterStatus_unfold:
  "updateSphincterStatus sn g =
     (let g1 = snd (readBoth sn Low Low g);
          h1 = (if fst (readBoth sn Low Low g) then g1\<lparr>sphincterStatus := UNKNOWN\<rparr> else g1);
          g2 = snd (readBoth sn High High h1);
          h2 = (if fst (readBoth sn High High h1) then g2\<lparr>sphincterStatus := FAILURE\<rparr> else g2);
          g3 = snd (readBoth sn High Low h2);
          h3 = (if fst (readBoth sn High Low h2) then g3\<lparr>sphincterStatus := UNLOCKED\<rparr> else g3);
          g4 = snd (readBoth sn Low High h3);
          h4 = (if fst (readBoth sn Low High h3) then g4\<lparr>sphincterStatus := LOCKED\<rparr> else g4)
      in (sphincterStatus h4, h4))"
  unfolding updateSphincterStatus_def Let_def case_prod_beta ..

lemma updateSphincterStatus_range:
  assumes "sphincterStatus g \<in> {UNKNOWN, LOCKED, UNLOCKED, FAILURE}"
  shows "fst (updateSphincterStatus sn g) \<in> {UNKNOWN, LOCKED, UNLOCKED, FAILURE}"
proof -
  define S where "S = {UNKNOWN, LOCKED, UNLOCKED, FAILURE}"
  have mem: "UNKNOWN \<in> S" "LOCKED \<in> S" "UNLOCKED \<in> S" "FAILURE \<in> S"
    by (simp_all add: S_def)
  have blk: "sphincterStatus (if fst (readBoth sn a b h)
                then (snd (readBoth sn a b h))\<lparr>sphincterStatus := v\<rparr>
                else snd (readBoth sn a b h)) \<in> S"
    if "sphincterStatus h \<in> S" "v \<in> S" for a b h v
    using that by (simp add: readBoth_keeps)
  from assms have "sphincterStatus g \<in> S" by (simp add: S_def)
  then have "fst (updateSphincterStatus sn g) \<in> S"
    unfolding updateSphincterStatus_unfold Let_def fst_conv
    by (intro blk mem)
  then show ?thesis by (simp add: S_def)
qed

lemma updateSphincterStatus_steady:
  assumes "\<forall>k<6. sn (sensorReads g + k) StatusPin0 = a \<and> sn (sensorReads g + k) StatusPin1 = b"
  shows "updateSphincterStatus sn g =
           (spec_DoorState a b,
            g\<lparr>sphincterStatus := spec_DoorState a b, sensorReads := sensorReads g + 6\<rparr>)"
proof -
  let ?n = "sensorReads g"
  have f: "sn (?n + k) StatusPin0 = a \<and> sn (?n + k) StatusPin1 = b" if "k < 6" for k
    using assms that by blast
  from f [of 0] f [of 1] f [of 2] f [of 3] f [of 4] f [of 5]
  have s: "sn ?n StatusPin0 = a" "sn (Suc ?n) StatusPin0 = a"
    "sn (Suc (Suc ?n)) StatusPin0 = a" "sn (Suc (Suc (Suc ?n))) StatusPin0 = a"
    "sn (Suc (Suc (Suc (Suc ?n)))) StatusPin0 = a"
    "sn (Suc (Suc (Suc (Suc (Suc ?n))))) StatusPin0 = a"
    "sn ?n StatusPin1 = b" "sn (Suc ?n) StatusPin1 = b" "sn (Suc (Suc ?n)) StatusPin1 = b"
    "sn (Suc (Suc (Suc ?n))) StatusPin1 = b" "sn (Suc (Suc (Suc (Suc ?n)))) StatusPin1 = b"
    "sn (Suc (Suc (Suc (Suc (Suc ?n))))) StatusPin1 = b"
    by (simp_all add: numeral_eq_Suc)
  show ?thesis
    using s by (cases a; cases b) (simp_all add: updateSphincterStatus_def readBoth_def)
qed

lemma Since_less_iff: "Since now t < 5 * Second \<longleftrightarrow> now - t < 5 * Second"
  by (simp add: Since_def Second_def maxDuration_def minDuration_def Let_def)

lemma isValid_iff: "isValid msg \<longleftrightarrow> \<not> set msg \<subseteq> {CHR ''0'', CHR ''F''}"
  by (auto simp: isValid_def ReplaceAll_def filter_empty_conv)

lemma readerStep_suppressed:
  "fst clk - latestTimestamp g < 5 * Second \<Longrightarrow>
   readerStep users clk g msg = ([Log ''Triggered too fast; skipped unlock''], g)"
  by (simp add: readerStep_def Since_less_iff)

lemma readerStep_authorized:
  "\<not> fst clk - latestTimestamp g < 5 * Second \<Longrightarrow> users msg = Some owner \<Longrightarrow>
   readerStep users clk g msg =
     ([Log (''Hello '' @ msg @ '' '' @ owner),
       SetHigh OpenPin, Sleep (1 * Second), SetLow OpenPin],
      g\<lparr>latestTimestamp := snd clk\<rparr>)"
  by (simp add: readerStep_def Since_less_iff)

lemma readerStep_unknown:
  "users msg = None \<Longrightarrow> snd (readerStep users clk g msg) = g"
  by (simp add: readerStep_def)

lemma readerStep_noise:
  "users msg = None \<Longrightarrow> set msg \<subseteq> {CHR ''0'', CHR ''F''} \<Longrightarrow>
   readerStep users clk g msg =
     (if fst clk - latestTimestamp g < 5 * Second
      then ([Log ''Triggered too fast; skipped unlock''], g) else ([], g))"
  by (simp add: readerStep_def Since_less_iff isValid_iff)

subsection \<open>The executor\<close>

lemma executor_serial:
  "nonOverlapping None (map (Pair Executor) (setupSphincterCmdChannel cmds))"
proof (induction cmds)
  case Nil
  show ?case by (simp add: setupSphincterCmdChannel_def)
next
  case (Cons cmd cmds)
  then show ?case
    by (simp add: setupSphincterCmdChannel_def executorStep_def)
qed

lemma executor_order:
  "pinWrites (setupSphincterCmdChannel cmds) =
     concat (map (\<lambda>cmd. if cmd = ''open'' then [SetHigh OpenPin, SetLow OpenPin]
                         else if cmd = ''close'' then [SetHigh ClosePin, SetLow ClosePin]
                         else []) cmds)"
  by (induction cmds) (simp_all add: setupSphincterCmdChannel_def executorStep_def pinWrites_def)

section \<open>Actuation: who drives the pins\<close>

text \<open>
  Counterexample for C1 as stated. Two unlock requests are served at the same time; the
  second handler drives the Open pin High before the first has driven it Low. The four
  pin writes of the execution are issued by the two handler goroutines, none by the
  executor of the command channel, and the two pulses overlap.
\<close>

theorem concurrent_unlock_pulses_overlap:
  "pinWritesBy (fst (main twoUnlocks)) =
     [(Handler 0, SetHigh OpenPin), (Handler 1, SetHigh OpenPin),
      (Handler 0, SetLow OpenPin), (Handler 1, SetLow OpenPin)]
   \<and> \<not> nonOverlapping None (fst (main twoUnlocks))"
  by (simp add: twoUnlocks_def exampleEnv_def main_def serve_def handlers_def httpHandler_def
      pinWritesBy_def)

text \<open>
  Claim C1, as the code has it. In every execution of \<^verbatim>\<open>main\<close> no pin write is issued
  by the executor of the command channel (\<^verbatim>\<open>main\<close> never starts it and nothing sends a
  command): every pin write is issued directly by the handler of a request or by the reader
  loop, and it is a write to the Open pin. The Close pin is never driven, so if it starts
  Low it stays Low, and at most one of the Open and Close pins is High at any instant of
  any execution, whatever the interleaving of the handlers. The executor itself, on
  whatever commands it would receive, issues its pulses one at a time, free of overlap and
  in the order in which the commands are received.
\<close>

theorem pulses_direct_and_close_never_driven:
  "(\<forall>t \<in> set (fst (main e)). isPinWrite (snd t) \<longrightarrow>
      (snd t = SetHigh OpenPin \<or> snd t = SetLow OpenPin) \<and>
      fst t \<noteq> Executor \<and> fst t \<noteq> Main)
   \<and> (lv ClosePin = Low \<longrightarrow>
      (\<forall>l \<in> set (levels lv (map snd (fst (main e)))).
         l ClosePin = Low \<and> \<not> (l OpenPin = High \<and> l ClosePin = High)))
   \<and> nonOverlapping None (map (Pair Executor) (setupSphincterCmdChannel cmds))
   \<and> pinWrites (setupSphincterCmdChannel cmds) =
       concat (map (\<lambda>cmd. if cmd = ''open'' then [SetHigh OpenPin, SetLow OpenPin]
                           else if cmd = ''close'' then [SetHigh ClosePin, SetLow ClosePin]
                           else []) cmds)"
proof (intro conjI ballI impI)
  fix t assume t: "t \<in> set (fst (main e))" and w: "isPinWrite (snd t)"
  from t have "(fst t, snd t) \<in> set (fst (main e))" by simp
  from main_pin_writes [OF this w]
  show "snd t = SetHigh OpenPin \<or> snd t = SetLow OpenPin"
    and "fst t \<noteq> Executor" and "fst t \<noteq> Main"
    by auto
next
  fix l assume lv: "lv ClosePin = Low" and l: "l \<in> set (levels lv (map snd (fst (main e))))"
  have "\<forall>x \<in> set (map snd (fst (main e))).
          isPinWrite x \<longrightarrow> x = SetHigh OpenPin \<or> x = SetLow OpenPin"
    using main_pin_writes by fastforce
  from levels_ClosePin [OF this l] lv show "l ClosePin = Low" by simp
  then show "\<not> (l OpenPin = High \<and> l ClosePin = High)" by simp
next
  show "nonOverlapping None (map (Pair Executor) (setupSphincterCmdChannel cmds))"
    by (rule executor_serial)
next
  show "pinWrites (setupSphincterCmdChannel cmds) =
       concat (map (\<lambda>cmd. if cmd = ''open'' then [SetHigh OpenPin, SetLow OpenPin]
                           else if cmd = ''close'' then [SetHigh ClosePin, SetLow ClosePin]
                           else []) cmds)"
    by (rule executor_order)
qed

text \<open>
  The statement above at the execution with two unlock requests, with both pins Low at
  the start, and at the commands \<^verbatim>\<open>open\<close>, \<^verbatim>\<open>close\<close> for the executor.
\<close>

theorem pulses_direct_and_close_never_driven_witness:
  "(Handler 1, SetHigh OpenPin) \<in> set (fst (main twoUnlocks))
   \<and> isPinWrite (SetHigh OpenPin) \<and> Handler 1 \<noteq> Executor \<and> Handler 1 \<noteq> Main
   \<and> (\<lambda>p. Low) ClosePin = Low
   \<and> last (levels (\<lambda>p. Low) (map snd (fst (main twoUnlocks)))) ClosePin = Low
   \<and> pinWrites (setupSphincterCmdChannel [''open'', ''close'']) =
       [SetHigh OpenPin, SetLow OpenPin, SetHigh ClosePin, SetLow ClosePin]"
  using pulses_direct_and_close_never_driven [of twoUnlocks "\<lambda>p. Low" "[''open'', ''close'']"]
  by (simp add: twoUnlocks_def exampleEnv_def main_def serve_def handlers_def httpHandler_def)

section \<open>The state query\<close>

text \<open>
  Counterexample for C2 as stated. With sensor lines that \<open>updateSphincterStatus\<close> maps
  to \<open>LOCKED\<close>, the state query still answers \<^verbatim>\<open>UNLOCKED\<close>.
\<close>

theorem state_query_ignores_sensors:
  "fst (httpHandler doorLocked initial ''GET'' ''state'') =
     [LogRequest ''GET'' ''state'', Write ''UNLOCKED'']
   \<and> fst (updateSphincterStatus doorLocked initial) = LOCKED
   \<and> LOCKED \<noteq> UNLOCKED"
  by (simp add: httpHandler_def updateSphincterStatus_def readBoth_def doorLocked_def
      initial_def LOCKED_def UNLOCKED_def)

text \<open>
  Claim C2, as the code has it. A state query (GET with \<^verbatim>\<open>action=state\<close>) always
  succeeds, performs no pin write, reads no sensor line and leaves the package-level
  variables unchanged; its answer is the fixed text \<^verbatim>\<open>UNLOCKED\<close>, whatever the sensor
  lines show.
\<close>

theorem state_query_fixed_answer:
  "httpHandler sn g ''GET'' ''state'' = ([LogRequest ''GET'' ''state'', Write ''UNLOCKED''], g)"
  by (simp add: httpHandler_def)

section \<open>Order of server and reader loop\<close>

text \<open>
  Claim C3. In every execution of \<^verbatim>\<open>main\<close>, while \<^verbatim>\<open>http.ListenAndServe\<close> has not
  returned, nothing is done by the reader loop: no token is received and no reader-path
  pulse is issued. Every operation of the reader loop comes after the return of
  \<^verbatim>\<open>http.ListenAndServe\<close>, which returns only with an error.
\<close>

theorem reader_loop_only_after_server_returns:
  "(listenAndServe e = None \<longrightarrow> (\<forall>t \<in> set (fst (main e)). fst t \<noteq> Reader))
   \<and> (fst (main e) = xs @ (Reader, x) # ys \<longrightarrow>
        (\<exists>err. listenAndServe e = Some err \<and> (Main, ListenAndServeReturned err) \<in> set xs))"
proof (intro conjI impI)
  assume "listenAndServe e = None"
  with main_shape [of e] show "\<forall>t \<in> set (fst (main e)). fst t \<noteq> Reader"
    by auto
next
  assume tr: "fst (main e) = xs @ (Reader, x) # ys"
  then have "\<not> (\<forall>y \<in> set (fst (main e)). fst y \<noteq> Reader)" by auto
  with main_shape [of e] obtain P err R
    where err: "listenAndServe e = Some err"
      and P: "\<forall>y \<in> set P. fst y \<noteq> Reader"
      and shape: "fst (main e) =
           P @ (Main, ListenAndServeReturned err) # (Main, Log '' :: Initialized!'') # R"
    by blast
  define P' where "P' = P @ [(Main, ListenAndServeReturned err), (Main, Log '' :: Initialized!'')]"
  from P have notin: "(Reader, x) \<notin> set P'" by (auto simp: P'_def)
  from tr shape have "xs @ (Reader, x) # ys = P' @ R"
    by (simp add: P'_def)
  from split_before [OF this notin] obtain zs where "xs = P' @ zs" by blast
  then have "(Main, ListenAndServeReturned err) \<in> set xs" by (simp add: P'_def)
  with err show "\<exists>err. listenAndServe e = Some err \<and> (Main, ListenAndServeReturned err) \<in> set xs"
    by blast
qed

text \<open>
  The statement above at an execution in which the server keeps serving while a frame
  waits on the serial port, and at one in which the server fails at once and the frame
  is then processed.
\<close>

theorem reader_loop_only_after_server_returns_witness:
  "listenAndServe (exampleEnv [(''GET'', ''unlock'')] [0, 0, 0, 0, 0] None
       [Data [CHR 0x02, CHR ''A'', CHR ''1'', CHR ''B'', CHR ''2'', CHR 0x03]]) = None
   \<and> Reader \<notin> fst ` set (fst (main (exampleEnv [(''GET'', ''unlock'')] [0, 0, 0, 0, 0] None
       [Data [CHR 0x02, CHR ''A'', CHR ''1'', CHR ''B'', CHR ''2'', CHR 0x03]])))
   \<and> fst (main (exampleEnv [] [] (Some ''listen tcp :8001: bind: address already in use'')
       [Data [CHR 0x02, CHR ''A'', CHR ''1'', CHR ''B'', CHR ''2'', CHR 0x03]])) =
      [(Main, Log '' :: Starting sphincter rfid token...''),
       (Main, Log '' :::: Opening GPIO''),
       (Main, Output OpenPin), (Main, Output ClosePin),
       (Main, Input StatusPin0), (Main, Input StatusPin1),
       (Main, Log '' :::: Reading list.txt''),
       (Main, Log '' :::: Found %d users ''),
       (Main, Log '' :::: Connecting to Serial''),
       (Main, Log '' :::: Setting up webserver''),
       (Main, ListenAndServeReturned ''listen tcp :8001: bind: address already in use''),
       (Main, Log '' :: Initialized!'')] @
      (Reader, Recv ''A1B2'') #
      [(Reader, Log ''Hello A1B2 Alice''),
       (Reader, SetHigh OpenPin), (Reader, Sleep 1000000000), (Reader, SetLow OpenPin)]"
  using reader_loop_only_after_server_returns
          [of "exampleEnv [(''GET'', ''unlock'')] [0, 0, 0, 0, 0] None
                 [Data [CHR 0x02, CHR ''A'', CHR ''1'', CHR ''B'', CHR ''2'', CHR 0x03]]"]
        reader_loop_only_after_server_returns
          [of "exampleEnv [] [] (Some ''listen tcp :8001: bind: address already in use'')
                 [Data [CHR 0x02, CHR ''A'', CHR ''1'', CHR ''B'', CHR ''2'', CHR 0x03]]"
              "[(Main, Log '' :: Starting sphincter rfid token...''),
               (Main, Log '' :::: Opening GPIO''),
               (Main, Output OpenPin), (Main, Output ClosePin),
               (Main, Input StatusPin0), (Main, Input StatusPin1),
               (Main, Log '' :::: Reading list.txt''),
               (Main, Log '' :::: Found %d users ''),
               (Main, Log '' :::: Connecting to Serial''),
               (Main, Log '' :::: Setting up webserver''),
               (Main, ListenAndServeReturned ''listen tcp :8001: bind: address already in use''),
               (Main, Log '' :: Initialized!'')]"
              "Recv ''A1B2''"
              "[(Reader, Log ''Hello A1B2 Alice''),
                (Reader, SetHigh OpenPin), (Reader, Sleep 1000000000), (Reader, SetLow OpenPin)]"]
  by (simp add: exampleEnv_def main_def serve_def handlers_def httpHandler_def getRFIDToken.simps
      ReadBytes.simps ETX_def STX_def Replace_def readerStep_def Since_def initial_def zeroTime_def
      Second_def maxDuration_def minDuration_def image_iff)

section \<open>The door status\<close>

text \<open>
  Counterexample for C4 as stated. On one and the same sequence of sensor samples (the
  second line is High for a single sample) the result is the value stored by an earlier
  call, \<open>UNLOCKED\<close> or \<open>FAILURE\<close>, so it is not a function of the samples; and a call
  changes the stored status (here from \<open>UNKNOWN\<close> to \<open>LOCKED\<close>).
\<close>

theorem status_depends_on_previous_value:
  "fst (updateSphincterStatus tornSample (initial\<lparr>sphincterStatus := UNLOCKED\<rparr>)) = UNLOCKED
   \<and> fst (updateSphincterStatus tornSample (initial\<lparr>sphincterStatus := FAILURE\<rparr>)) = FAILURE
   \<and> UNLOCKED \<noteq> FAILURE
   \<and> sphincterStatus initial = UNKNOWN
   \<and> sphincterStatus (snd (updateSphincterStatus doorLocked initial)) = LOCKED"
  by (simp add: updateSphincterStatus_def readBoth_def tornSample_def doorLocked_def
      initial_def UNKNOWN_def LOCKED_def UNLOCKED_def FAILURE_def)

text \<open>
  Claim C4, as the code has it. \<open>updateSphincterStatus\<close> reads the sensor lines one
  \<^verbatim>\<open>Read()\<close> at a time and stores its result in \<^verbatim>\<open>sphincterStatus\<close>. When both lines
  keep their levels during the six reads of the call, the result depends on these levels
  alone, not on the stored value: low/low gives Unknown, high/high Failure, high/low
  Unlocked and low/high Locked. When the stored value is one of the four constants, so is
  the result, whatever the samples are.
\<close>

theorem status_of_steady_lines:
  "((\<forall>k<6. sn (sensorReads g + k) StatusPin0 = a \<and> sn (sensorReads g + k) StatusPin1 = b) \<longrightarrow>
      updateSphincterStatus sn g =
        (spec_DoorState a b,
         g\<lparr>sphincterStatus := spec_DoorState a b, sensorReads := sensorReads g + 6\<rparr>))
   \<and> (sphincterStatus g \<in> {UNKNOWN, LOCKED, UNLOCKED, FAILURE} \<longrightarrow>
      fst (updateSphincterStatus sn g) \<in> {UNKNOWN, LOCKED, UNLOCKED, FAILURE})"
  using updateSphincterStatus_steady [of sn g a b] updateSphincterStatus_range [of g sn]
  by blast

text \<open>
  The statement above at sensor lines that show a locked door, and at the samples of
  the counterexample with the initial variables.
\<close>

theorem status_of_steady_lines_witness:
  "updateSphincterStatus doorLocked initial =
     (LOCKED, initial\<lparr>sphincterStatus := LOCKED, sensorReads := 6\<rparr>)
   \<and> sphincterStatus initial \<in> {UNKNOWN, LOCKED, UNLOCKED, FAILURE}
   \<and> fst (updateSphincterStatus tornSample initial) \<in> {UNKNOWN, LOCKED, UNLOCKED, FAILURE}"
  using status_of_steady_lines [where sn = doorLocked and a = Low and b = High and g = initial]
        status_of_steady_lines [where sn = tornSample and g = initial]
  by (simp add: doorLocked_def initial_def UNKNOWN_def)

section \<open>The token check\<close>

text \<open>
  Counterexample for C5 as stated. The token \<^verbatim>\<open>0000\<close> consists of the character
  \<^verbatim>\<open>0\<close> only and \<open>isValid\<close> rejects it, but the table lists it: the reader loop
  stores the timestamp and issues the pulse.
\<close>

theorem listed_noise_token_unlocks:
  "set ''0000'' \<subseteq> {CHR ''0'', CHR ''F''}
   \<and> \<not> isValid ''0000''
   \<and> listedNoise ''0000'' = Some ''Bob''
   \<and> readerStep listedNoise (10 * Second, 10 * Second) initial ''0000'' =
       ([Log ''Hello 0000 Bob'', SetHigh OpenPin, Sleep (1 * Second), SetLow OpenPin],
        initial\<lparr>latestTimestamp := 10 * Second\<rparr>)"
  by (simp add: readerStep_def isValid_def ReplaceAll_def Since_def initial_def zeroTime_def
      Second_def maxDuration_def minDuration_def listedNoise_def)

text \<open>
  Claim C5, as the code has it. The table is looked up first. A token that consists
  solely of the characters \<^verbatim>\<open>0\<close> and \<^verbatim>\<open>F\<close> and is not a key of the table causes no
  timestamp update, no pulse and no log line (beyond the line of the debounce check when
  that check skips it). A token that is a key of the table, whatever its characters, is
  authorised with the owner label recorded for it once the debounce check lets it pass:
  the owner is logged, the timestamp is stored and the Open pin is pulsed.
\<close>

theorem token_check:
  "(set msg \<subseteq> {CHR ''0'', CHR ''F''} \<and> users msg = None \<longrightarrow>
      readerStep users clk g msg =
        (if fst clk - latestTimestamp g < 5 * Second
         then ([Log ''Triggered too fast; skipped unlock''], g) else ([], g)))
   \<and> (users msg = Some owner \<and> \<not> fst clk - latestTimestamp g < 5 * Second \<longrightarrow>
      readerStep users clk g msg =
        ([Log (''Hello '' @ msg @ '' '' @ owner),
          SetHigh OpenPin, Sleep (1 * Second), SetLow OpenPin],
         g\<lparr>latestTimestamp := snd clk\<rparr>))"
  using readerStep_noise [of users msg clk g] readerStep_authorized [of clk g users msg owner]
  by blast

text \<open>
  The statement above for the table with the entry \<^verbatim>\<open>A1B2 Alice\<close> and the tokens
  \<^verbatim>\<open>0000\<close> and \<^verbatim>\<open>A1B2\<close>, ten seconds after the epoch.
\<close>

theorem token_check_witness:
  "set ''0000'' \<subseteq> {CHR ''0'', CHR ''F''}
   \<and> [''A1B2'' \<mapsto> ''Alice''] ''0000'' = None
   \<and> readerStep [''A1B2'' \<mapsto> ''Alice''] (10 * Second, 10 * Second) initial ''0000'' = ([], initial)
   \<and> [''A1B2'' \<mapsto> ''Alice''] ''A1B2'' = Some ''Alice''
   \<and> readerStep [''A1B2'' \<mapsto> ''Alice''] (10 * Second, 10 * Second) initial ''A1B2'' =
       ([Log ''Hello A1B2 Alice'', SetHigh OpenPin, Sleep (1 * Second), SetLow OpenPin],
        initial\<lparr>latestTimestamp := 10 * Second\<rparr>)"
  using token_check [of "''0000''" "[''A1B2'' \<mapsto> ''Alice'']" "(10 * Second, 10 * Second)" initial]
        token_check [of "''A1B2''" "[''A1B2'' \<mapsto> ''Alice'']" "(10 * Second, 10 * Second)"
                        initial "''Alice''"]
  by (simp add: initial_def zeroTime_def Second_def)

section \<open>The debounce check\<close>

text \<open>
  Counterexample for C6 as stated. The token \<^verbatim>\<open>0000\<close> consists of the character
  \<^verbatim>\<open>0\<close> only and \<open>isValid\<close> rejects it, so it is malformed in the sense of the
  specification; the table lists it, and the reader loop replaces the stored timestamp
  (the zero time) by the clock reading.
\<close>

theorem listed_noise_token_stores_timestamp:
  "set ''0000'' \<subseteq> {CHR ''0'', CHR ''F''}
   \<and> \<not> isValid ''0000''
   \<and> latestTimestamp initial = zeroTime
   \<and> latestTimestamp (snd (readerStep listedNoise (10 * Second, 10 * Second) initial ''0000''))
       = 10 * Second
   \<and> zeroTime \<noteq> 10 * Second"
  by (simp add: readerStep_def isValid_def ReplaceAll_def Since_def initial_def zeroTime_def
      Second_def maxDuration_def minDuration_def listedNoise_def)

text \<open>
  Claim C6, as the code has it. A token that arrives less than five seconds after the
  stored timestamp of the last accepted one is skipped: no pulse, no timestamp update. A
  token that the table lists, whatever its characters, and that arrives five seconds or
  more after it is admitted: the Open pin is pulsed and the timestamp is stored. A token
  that is not a key of the table never changes the timestamp. For two listed tokens in
  a row, the first admitted, the second is skipped exactly when it arrives less than
  five seconds after the timestamp stored for the first.
\<close>

theorem debounce_gate:
  "(fst clk - latestTimestamp g < 5 * Second \<longrightarrow>
      readerStep users clk g msg = ([Log ''Triggered too fast; skipped unlock''], g))
   \<and> (5 * Second \<le> fst clk - latestTimestamp g \<and> users msg = Some owner \<longrightarrow>
      readerStep users clk g msg =
        ([Log (''Hello '' @ msg @ '' '' @ owner),
          SetHigh OpenPin, Sleep (1 * Second), SetLow OpenPin],
         g\<lparr>latestTimestamp := snd clk\<rparr>))
   \<and> (users msg = None \<longrightarrow> snd (readerStep users clk g msg) = g)
   \<and> (users m1 = Some o1 \<and> users m2 = Some o2
        \<and> 5 * Second \<le> fst (ticks 0) - latestTimestamp g \<longrightarrow>
      readerLoop users ticks 0 g [m1, m2] =
        (if fst (ticks 1) - snd (ticks 0) < 5 * Second then
           ([Recv m1, Log (''Hello '' @ m1 @ '' '' @ o1),
             SetHigh OpenPin, Sleep (1 * Second), SetLow OpenPin,
             Recv m2, Log ''Triggered too fast; skipped unlock''],
            g\<lparr>latestTimestamp := snd (ticks 0)\<rparr>)
         else
           ([Recv m1, Log (''Hello '' @ m1 @ '' '' @ o1),
             SetHigh OpenPin, Sleep (1 * Second), SetLow OpenPin,
             Recv m2, Log (''Hello '' @ m2 @ '' '' @ o2),
             SetHigh OpenPin, Sleep (1 * Second), SetLow OpenPin],
            g\<lparr>latestTimestamp := snd (ticks 1)\<rparr>)))"
proof (intro conjI impI)
  assume "fst clk - latestTimestamp g < 5 * Second"
  then show "readerStep users clk g msg = ([Log ''Triggered too fast; skipped unlock''], g)"
    by (rule readerStep_suppressed)
next
  assume "5 * Second \<le> fst clk - latestTimestamp g \<and> users msg = Some owner"
  then show "readerStep users clk g msg =
        ([Log (''Hello '' @ msg @ '' '' @ owner),
          SetHigh OpenPin, Sleep (1 * Second), SetLow OpenPin],
         g\<lparr>latestTimestamp := snd clk\<rparr>)"
    by (simp add: readerStep_authorized)
next
  assume "users msg = None"
  then show "snd (readerStep users clk g msg) = g"
    by (rule readerStep_unknown)
next
  assume a: "users m1 = Some o1 \<and> users m2 = Some o2
        \<and> 5 * Second \<le> fst (ticks 0) - latestTimestamp g"
  then have first: "readerStep users (ticks 0) g m1 =
        ([Log (''Hello '' @ m1 @ '' '' @ o1),
          SetHigh OpenPin, Sleep (1 * Second), SetLow OpenPin],
         g\<lparr>latestTimestamp := snd (ticks 0)\<rparr>)"
    by (simp add: readerStep_authorized)
  let ?g = "g\<lparr>latestTimestamp := snd (ticks 0)\<rparr>"
  have second: "readerStep users (ticks 1) ?g m2 =
        (if fst (ticks 1) - snd (ticks 0) < 5 * Second
         then ([Log ''Triggered too fast; skipped unlock''], ?g)
         else ([Log (''Hello '' @ m2 @ '' '' @ o2),
                SetHigh OpenPin, Sleep (1 * Second), SetLow OpenPin],
               ?g\<lparr>latestTimestamp := snd (ticks 1)\<rparr>))"
    using a by (simp add: readerStep_suppressed readerStep_authorized)
  show "readerLoop users ticks 0 g [m1, m2] =
        (if fst (ticks 1) - snd (ticks 0) < 5 * Second then
           ([Recv m1, Log (''Hello '' @ m1 @ '' '' @ o1),
             SetHigh OpenPin, Sleep (1 * Second), SetLow OpenPin,
             Recv m2, Log ''Triggered too fast; skipped unlock''],
            g\<lparr>latestTimestamp := snd (ticks 0)\<rparr>)
         else
           ([Recv m1, Log (''Hello '' @ m1 @ '' '' @ o1),
             SetHigh OpenPin, Sleep (1 * Second), SetLow OpenPin,
             Recv m2, Log (''Hello '' @ m2 @ '' '' @ o2),
             SetHigh OpenPin, Sleep (1 * Second), SetLow OpenPin],
            g\<lparr>latestTimestamp := snd (ticks 1)\<rparr>))"
    using first second by simp
qed

text \<open>
  The statement above at a stored timestamp of 10 s: a token at 12 s is skipped, a
  token at 15 s is admitted, an unknown token at 15 s leaves the timestamp; and the same
  token presented twice within two seconds drives the pin once.
\<close>

theorem debounce_gate_witness:
  "readerStep [''A1B2'' \<mapsto> ''Alice''] (12 * Second, 12 * Second)
      (initial\<lparr>latestTimestamp := 10 * Second\<rparr>) ''A1B2'' =
     ([Log ''Triggered too fast; skipped unlock''], initial\<lparr>latestTimestamp := 10 * Second\<rparr>)
   \<and> readerStep [''A1B2'' \<mapsto> ''Alice''] (15 * Second, 15 * Second)
      (initial\<lparr>latestTimestamp := 10 * Second\<rparr>) ''A1B2'' =
     ([Log ''Hello A1B2 Alice'', SetHigh OpenPin, Sleep (1 * Second), SetLow OpenPin],
      initial\<lparr>latestTimestamp := 15 * Second\<rparr>)
   \<and> snd (readerStep [''A1B2'' \<mapsto> ''Alice''] (15 * Second, 15 * Second)
      (initial\<lparr>latestTimestamp := 10 * Second\<rparr>) ''FFFF'') =
     initial\<lparr>latestTimestamp := 10 * Second\<rparr>
   \<and> readerLoop [''A1B2'' \<mapsto> ''Alice''] (\<lambda>i. (int i * 2 * Second, int i * 2 * Second)) 0
      initial [''A1B2'', ''A1B2''] =
     ([Recv ''A1B2'', Log ''Hello A1B2 Alice'',
       SetHigh OpenPin, Sleep (1 * Second), SetLow OpenPin,
       Recv ''A1B2'', Log ''Triggered too fast; skipped unlock''],
      initial\<lparr>latestTimestamp := 0\<rparr>)"
  using debounce_gate [where clk = "(12 * Second, 12 * Second)"
          and g = "initial\<lparr>latestTimestamp := 10 * Second\<rparr>" and msg = "''A1B2''"
          and users = "[''A1B2'' \<mapsto> ''Alice'']" and owner = "''Alice''"
          and ?m1.0 = "''A1B2''" and ?o1.0 = "''Alice''" and ?m2.0 = "''A1B2''" and ?o2.0 = "''Alice''"
          and ticks = "\<lambda>i. (int i * 2 * Second, int i * 2 * Second)"]
        debounce_gate [where clk = "(15 * Second, 15 * Second)"
          and g = "initial\<lparr>latestTimestamp := 10 * Second\<rparr>" and msg = "''A1B2''"
          and users = "[''A1B2'' \<mapsto> ''Alice'']" and owner = "''Alice''"
          and ?m1.0 = "''A1B2''" and ?o1.0 = "''Alice''" and ?m2.0 = "''A1B2''" and ?o2.0 = "''Alice''"
          and ticks = "\<lambda>i. (int i * 2 * Second, int i * 2 * Second)"]
        debounce_gate [where clk = "(15 * Second, 15 * Second)"
          and g = "initial\<lparr>latestTimestamp := 10 * Second\<rparr>" and msg = "''FFFF''"
          and users = "[''A1B2'' \<mapsto> ''Alice'']" and owner = "''Alice''"
          and ?m1.0 = "''A1B2''" and ?o1.0 = "''Alice''" and ?m2.0 = "''A1B2''" and ?o2.0 = "''Alice''"
          and ticks = "\<lambda>i. (int i * 2 * Second, int i * 2 * Second)"]
        debounce_gate [where clk = "(0, 0)" and g = initial and msg = "''A1B2''"
          and users = "[''A1B2'' \<mapsto> ''Alice'']" and owner = "''Alice''"
          and ?m1.0 = "''A1B2''" and ?o1.0 = "''Alice''" and ?m2.0 = "''A1B2''" and ?o2.0 = "''Alice''"
          and ticks = "\<lambda>i. (int i * 2 * Second, int i * 2 * Second)"]
  by (simp add: initial_def zeroTime_def Second_def readerStep_def Since_def maxDuration_def
      minDuration_def)

section \<open>The token framer\<close>

text \<open>
  Tokens never hold a framing byte, and when every read of the port delivers exactly
  one whole frame, the tokens are the payloads of the frames in order (lemmas
  \<open>getRFIDToken_no_delimiters\<close> and \<open>getRFIDToken_frame_per_read\<close> above).

  Claim C7 at an input where the code departs from it. The byte stream
  \<^verbatim>\<open>02 41 03 02 42 03\<close> holds the two frames with payloads \<^verbatim>\<open>A\<close> and \<^verbatim>\<open>B\<close>. When
  one read of the port delivers all six bytes, only the token \<^verbatim>\<open>A\<close> is sent: the
  second frame sits in the buffer of the reader that the next iteration replaces. When
  the port delivers one frame per read, both tokens are sent.
\<close>

theorem frames_in_one_read_are_lost:
  "getRFIDToken [Data [CHR 0x02, CHR ''A'', CHR 0x03, CHR 0x02, CHR ''B'', CHR 0x03]] =
     ([''A''], Waiting)
   \<and> getRFIDToken [Data [CHR 0x02, CHR ''A'', CHR 0x03], Data [CHR 0x02, CHR ''B'', CHR 0x03]] =
     ([''A'', ''B''], Waiting)"
  by (simp add: getRFIDToken.simps ReadBytes.simps ETX_def STX_def Replace_def)

section \<open>Remote commands\<close>



text \<open>
  Claim C9. A remote lock request (GET with \<^verbatim>\<open>action=lock\<close>) writes the fixed
  acknowledgment \<^verbatim>\<open>LOCKED\<close> and performs no pin write at all; the package-level
  variables are unchanged.
\<close>

theorem submitClose_ack_without_pins:
  "httpHandler sn g ''GET'' ''lock'' = ([LogRequest ''GET'' ''lock'', Write ''LOCKED''], g)
   \<and> pinWrites (fst (httpHandler sn g ''GET'' ''lock'')) = []"
  by (simp add: httpHandler_def pinWrites_def)

section \<open>Read errors\<close>


end
